theory Spec2Isabelle
  imports Main "HOL-Library.Word"
begin

unbundle bit_operations_syntax

section \<open>The packet framing engine of DuinoBus (Packet.h, Packet.cpp)\<close>

subsection \<open>Framing constants and enumerations\<close>

type_synonym byte = "8 word"

definition END :: byte where "END = 0xC0"
definition ESC :: byte where "ESC = 0xDB"
definition ESC_END :: byte where "ESC_END = 0xDC"
definition ESC_ESC :: byte where "ESC_ESC = 0xDD"

datatype Error = NONE | NOT_DONE | CRC | TIMEOUT | TOO_MUCH_DATA | TOO_SMALL | BAD_STATE

text \<open>
  \<open>Packet::State\<close> has the enumerators IDLE, PACKET and ESCAPE. The tests cast the value
  0x80 into \<open>m_state\<close>; \<open>OTHER\<close> stands for every such value outside the enumerators, the
  one that reaches the final \<open>return Error::BAD_STATE\<close> of both state machines.
\<close>

datatype State = IDLE | PACKET | ESCAPE | OTHER

text \<open>
  What C++ leaves undefined or aborts on is a value of the model: an access to
  \<open>m_data\<close> outside the caller's buffer, and a failed \<open>assert\<close>.
\<close>

datatype fault = OutOfBounds | AssertionFailed

text \<open>
  The object. \<open>m_data\<close> points to the caller's storage; the model holds the bytes of that
  storage, so \<open>length (m_data p)\<close> is the real size of the buffer and \<open>m_maxData\<close> is
  what the constructor was told. The \<open>size_t\<close> fields are natural numbers: every increment
  of \<open>m_dataLen\<close> and \<open>m_encodeIdx\<close> follows an access inside the buffer at that index
  (or a CRC over that many bytes of it), so a counter never passes the size of a real buffer
  by more than one and no increment wraps. The one place where \<open>size_t\<close> arithmetic does
  wrap, \<open>length()\<close>, is written with machine words.
\<close>

record Packet =
  m_maxData :: nat
  m_dataLen :: nat
  m_data :: "byte list"
  m_state :: State
  m_encodeIdx :: nat

definition Packet_ctor :: "nat \<Rightarrow> byte list \<Rightarrow> Packet" where
  "Packet_ctor maxData data =
     \<lparr>m_maxData = maxData, m_dataLen = 0, m_data = data, m_state = IDLE, m_encodeIdx = 0\<rparr>"

subsection \<open>Access to the storage\<close>

definition load :: "Packet \<Rightarrow> nat \<Rightarrow> fault + byte" where
  \<comment> \<open>\<open>this->m_data[i]\<close> read\<close>
  "load p i = (if i < length (m_data p) then Inr (m_data p ! i) else Inl OutOfBounds)"

definition store :: "Packet \<Rightarrow> byte \<Rightarrow> fault + Packet" where
  \<comment> \<open>\<open>this->m_data[this->m_dataLen++] = v\<close>\<close>
  "store p v =
     (if m_dataLen p < length (m_data p)
      then Inr (p\<lparr>m_data := (m_data p)[m_dataLen p := v], m_dataLen := m_dataLen p + 1\<rparr>)
      else Inl OutOfBounds)"

subsection \<open>The checksum\<close>

text \<open>
  Modelled from the spec: \<open>Crc8\<close> is declared in Crc8.h, which is not among the sources.
  Packet.h names it as the CRC of crcmod's predefined 'crc-8' (polynomial 0x07, initial
  value 0, no reflection, no final xor) and the spec as a pure CRC-8 over a byte range with a
  fixed polynomial. \<open>Crc8_bit\<close> is one shift of the register.
\<close>

definition Crc8_bit :: "byte \<Rightarrow> byte" where
  "Crc8_bit d = (if d AND 0x80 \<noteq> 0 then push_bit 1 d XOR 0x07 else push_bit 1 d)"

text \<open>
  Modelled from the spec: the CRC-8 register after one more data byte (eight shifts of
  the byte xored into the register); missing with Crc8.h.
\<close>

definition Crc8_byte :: "byte \<Rightarrow> byte \<Rightarrow> byte" where
  "Crc8_byte inCrc inData =
     Crc8_bit (Crc8_bit (Crc8_bit (Crc8_bit (Crc8_bit (Crc8_bit (Crc8_bit (Crc8_bit
       (inCrc XOR inData))))))))"

text \<open>
  Modelled from the spec: the CRC-8 of a sequence of bytes, from the register value
  \<open>crc\<close>; missing with Crc8.h.
\<close>

definition Crc8_bytes :: "byte \<Rightarrow> byte list \<Rightarrow> byte" where
  "Crc8_bytes crc bs = foldl Crc8_byte crc bs"

text \<open>
  Modelled from the spec: \<open>Crc8(crc, len, data)\<close> as Packet.cpp calls it, reading the
  first \<open>len\<close> bytes of the buffer; missing with Crc8.h.
\<close>

definition Crc8 :: "byte \<Rightarrow> nat \<Rightarrow> byte list \<Rightarrow> fault + byte" where
  "Crc8 crc len data =
     (if len \<le> length data then Inr (Crc8_bytes crc (take len data)) else Inl OutOfBounds)"

subsection \<open>Accessors and setters (Packet.h)\<close>

definition command :: "Packet \<Rightarrow> fault + byte" where
  "command p = load p 0"

definition command_set :: "Packet \<Rightarrow> byte \<Rightarrow> fault + Packet" where
  \<comment> \<open>\<open>void command(Command::Type cmd)\<close>\<close>
  "command_set p cmd =
     (if 0 < length (m_data p) then Inr (p\<lparr>m_data := (m_data p)[0 := cmd]\<rparr>)
      else Inl OutOfBounds)"

text \<open>
  \<open>uint8_t length() const { return this->m_dataLen - 2; }\<close>: the subtraction is done in
  \<open>size_t\<close> (64 bits on the platform of the tests) and the result is converted to
  \<open>uint8_t\<close>.
\<close>

definition length_pkt :: "Packet \<Rightarrow> byte" where
  "length_pkt p = ucast ((word_of_nat (m_dataLen p) :: 64 word) - 2)"

definition crc :: "Packet \<Rightarrow> fault + byte" where
  "crc p = (if \<not> (m_dataLen p \<ge> 2) then Inl AssertionFailed else load p (m_dataLen p - 1))"

definition appendData :: "Packet \<Rightarrow> byte list \<Rightarrow> fault + Packet" where
  "appendData p data =
     (if \<not> (m_dataLen p + length data \<le> m_maxData p) then Inl AssertionFailed
      else if length data > 0 then
        (if m_dataLen p + length data \<le> length (m_data p)
         then Inr (p\<lparr>m_data := take (m_dataLen p) (m_data p) @ data
                               @ drop (m_dataLen p + length data) (m_data p),
                     m_dataLen := m_dataLen p + length data\<rparr>)
         else Inl OutOfBounds)
      else Inr p)"

definition setData :: "Packet \<Rightarrow> byte list \<Rightarrow> fault + Packet" where
  "setData p data = appendData (p\<lparr>m_dataLen := 1\<rparr>) data"

subsection \<open>The decoder (Packet::processByte)\<close>

text \<open>
  The calls to \<open>DumpMem\<close> and \<open>Log::error\<close> only print. The two reads of the END branch
  are inside the buffer exactly when \<open>m_dataLen\<close> is at most its size.
\<close>

definition processByte :: "Packet \<Rightarrow> byte \<Rightarrow> fault + (Error \<times> Packet)" where
  "processByte p byte =
     (case m_state p of
        IDLE \<Rightarrow> Inr (NOT_DONE, p\<lparr>m_state := PACKET, m_dataLen := 0\<rparr>)
      | PACKET \<Rightarrow>
          if byte = END then
            if m_dataLen p = 0 then Inr (NOT_DONE, p)
            else if m_dataLen p = 1 then Inr (TOO_SMALL, p)
            else
              (case load p (m_dataLen p - 1) of
                 Inl f \<Rightarrow> Inl f
               | Inr rcvd_crc \<Rightarrow>
                   (case Crc8 0 (m_dataLen p - 1) (m_data p) of
                      Inl f \<Rightarrow> Inl f
                    | Inr expected_crc \<Rightarrow>
                        if rcvd_crc = expected_crc then Inr (NONE, p\<lparr>m_state := IDLE\<rparr>)
                        else Inr (CRC, p)))
          else if m_dataLen p \<ge> m_maxData p then Inr (TOO_MUCH_DATA, p)
          else if byte = ESC then Inr (NOT_DONE, p\<lparr>m_state := ESCAPE\<rparr>)
          else (case store p byte of Inl f \<Rightarrow> Inl f | Inr p' \<Rightarrow> Inr (NOT_DONE, p'))
      | ESCAPE \<Rightarrow>
          (case store p (if byte = ESC_END then END else if byte = ESC_ESC then ESC else byte) of
             Inl f \<Rightarrow> Inl f
           | Inr p' \<Rightarrow> Inr (NOT_DONE, p'\<lparr>m_state := PACKET\<rparr>))
      | OTHER \<Rightarrow> Inr (BAD_STATE, p))"

text \<open>
  A caller feeding a stream: one call of \<open>processByte\<close> per byte, as \<open>IBus::processByte\<close>
  does for every byte the port delivers. The result of every call is kept.
\<close>

fun processBytes :: "Packet \<Rightarrow> byte list \<Rightarrow> fault + (Error list \<times> Packet)" where
  "processBytes p [] = Inr ([], p)"
| "processBytes p (b # bs) =
     (case processByte p b of
        Inl f \<Rightarrow> Inl f
      | Inr (e, p') \<Rightarrow>
          (case processBytes p' bs of
             Inl f \<Rightarrow> Inl f
           | Inr (es, q) \<Rightarrow> Inr (e # es, q)))"

text \<open>
  \<open>PacketDecodeTest::parseData\<close>, the loop of the decoder's tests: it stops at the first
  result other than NOT_DONE.
\<close>

fun parseData :: "Packet \<Rightarrow> byte list \<Rightarrow> fault + (Error \<times> Packet)" where
  "parseData p [] = Inr (NOT_DONE, p)"
| "parseData p (b # bs) =
     (case processByte p b of
        Inl f \<Rightarrow> Inl f
      | Inr (err, p') \<Rightarrow> if err \<noteq> NOT_DONE then Inr (err, p') else parseData p' bs)"

subsection \<open>The encoder (Packet::encodeStart, Packet::encodeByte)\<close>

definition encodeStart :: "Packet \<Rightarrow> Packet" where
  "encodeStart p = p\<lparr>m_state := IDLE\<rparr>"

text \<open>
  \<open>encodeByte\<close> writes through its out-parameter; the model takes the content of that cell
  and returns the new content (unchanged on BAD_STATE).
\<close>

definition encodeByte :: "Packet \<Rightarrow> byte \<Rightarrow> fault + (Error \<times> byte \<times> Packet)" where
  "encodeByte p byte =
     (case m_state p of
        IDLE \<Rightarrow> Inr (NOT_DONE, END, p\<lparr>m_encodeIdx := 0, m_state := PACKET\<rparr>)
      | PACKET \<Rightarrow>
          if m_encodeIdx p \<ge> m_dataLen p then
            if m_encodeIdx p = m_dataLen p then
              (case Crc8 0 (m_dataLen p) (m_data p) of
                 Inl f \<Rightarrow> Inl f
               | Inr c \<Rightarrow> Inr (NOT_DONE, c, p\<lparr>m_encodeIdx := m_encodeIdx p + 1\<rparr>))
            else Inr (NONE, END, p\<lparr>m_state := IDLE\<rparr>)
          else
            (case load p (m_encodeIdx p) of
               Inl f \<Rightarrow> Inl f
             | Inr nextByte \<Rightarrow>
                 if nextByte = END \<or> nextByte = ESC
                 then Inr (NOT_DONE, ESC, p\<lparr>m_state := ESCAPE\<rparr>)
                 else Inr (NOT_DONE, nextByte, p\<lparr>m_encodeIdx := m_encodeIdx p + 1\<rparr>))
      | ESCAPE \<Rightarrow>
          (case load p (m_encodeIdx p) of
             Inl f \<Rightarrow> Inl f
           | Inr nextByte \<Rightarrow>
               Inr (NOT_DONE, (if nextByte = END then ESC_END else ESC_ESC),
                    p\<lparr>m_encodeIdx := m_encodeIdx p + 1, m_state := PACKET\<rparr>))
      | OTHER \<Rightarrow> Inr (BAD_STATE, byte, p))"


text \<open>
  The number of calls of \<open>encodeByte\<close> a session still has before it: it falls with
  every call that returns NOT_DONE.
\<close>

definition encMeasure :: "Packet \<Rightarrow> nat" where
  "encMeasure p =
     (case m_state p of
        IDLE \<Rightarrow> 2 * (m_dataLen p + 1) + 2
      | PACKET \<Rightarrow> 2 * (m_dataLen p + 1 - m_encodeIdx p) + 1
      | ESCAPE \<Rightarrow> 2 * (m_dataLen p - m_encodeIdx p) + 2
      | OTHER \<Rightarrow> 0)"

text \<open>
  The loop that drives the encoder, as the constructor of \<open>PacketEncodeTest\<close> writes it:
  \<^verbatim>\<open>while (encodeByte(&nextByte) == Error::NOT_DONE) push_back(nextByte); push_back(nextByte);\<close>
  It returns the bytes produced, the result of the last call and the packet left behind.
\<close>

function encodeLoop :: "Packet \<Rightarrow> byte \<Rightarrow> fault + (byte list \<times> Error \<times> Packet)" where
  "encodeLoop p byte =
     (case encodeByte p byte of
        Inl f \<Rightarrow> Inl f
      | Inr (err, byte', p') \<Rightarrow>
          if err = NOT_DONE then
            (case encodeLoop p' byte' of
               Inl f \<Rightarrow> Inl f
             | Inr (bs, e, q) \<Rightarrow> Inr (byte' # bs, e, q))
          else Inr ([byte'], err, p'))"
  by pat_completeness auto
termination
  by (relation "measure (\<lambda>(p, byte). encMeasure p)")
    (auto simp: encodeByte_def encMeasure_def split: State.splits if_splits sum.splits)

text \<open>
  The whole constructor of \<open>PacketEncodeTest\<close>: a packet over the buffer, the command,
  the payload, \<open>encodeStart\<close> and the loop. \<open>nextByte\<close> is the content of the
  uninitialised local the loop hands to \<open>encodeByte\<close>.
\<close>

definition PacketEncodeTest ::
  "nat \<Rightarrow> byte list \<Rightarrow> byte \<Rightarrow> byte list \<Rightarrow> byte \<Rightarrow> fault + (byte list \<times> Error \<times> Packet)" where
  "PacketEncodeTest maxData buf cmd data nextByte =
     (case command_set (Packet_ctor maxData buf) cmd of
        Inl f \<Rightarrow> Inl f
      | Inr p1 \<Rightarrow>
          (case setData p1 data of
             Inl f \<Rightarrow> Inl f
           | Inr p2 \<Rightarrow> encodeLoop (encodeStart p2) nextByte))"

declare encodeLoop.simps [simp del]

subsection \<open>The wire format of the spec\<close>

text \<open>
  The spec's byte stuffing (section 4.1): END and ESC inside a frame are replaced by
  the two-byte sequences ESC ESC_END and ESC ESC_ESC; every other byte stands for itself.
  This definition follows the spec's words, to compare the encoder and the decoder with.
\<close>

definition slip_escape :: "byte \<Rightarrow> byte list" where
  "slip_escape b = (if b = END then [ESC, ESC_END] else if b = ESC then [ESC, ESC_ESC] else [b])"

subsection \<open>The invariant of a decode session\<close>

text \<open>
  The buffer has the size the constructor was given, the length stays within it, an
  escape is only pending while there is room for the escaped byte, and the state is one
  of the enumerators.
\<close>

definition pkt_inv :: "Packet \<Rightarrow> bool" where
  "pkt_inv p \<longleftrightarrow>
     length (m_data p) = m_maxData p \<and> m_dataLen p \<le> m_maxData p \<and>
     (m_state p = ESCAPE \<longrightarrow> m_dataLen p < m_maxData p) \<and> m_state p \<noteq> OTHER"


section \<open>Properties\<close>

subsection \<open>The model against the repository's tests\<close>

text \<open>
  The checksums that PacketDecodeTest.cpp and PacketEncodeTest.cpp expect are the ones
  the modelled CRC-8 computes.
\<close>

lemma Crc8_test_vectors:
  "Crc8_bytes 0 [0x01] = 0x07"
  "Crc8_bytes 0 [0x01, 0x02] = 0x1B"
  "Crc8_bytes 0 [0x01, 0x02, 0x03] = 0x48"
  "Crc8_bytes 0 [0xC0, 0x02, 0x03] = 0xAE"
  "Crc8_bytes 0 [0xDB, 0x02, 0x03] = 0xE0"
  "Crc8_bytes 0 [0, 1, 2, 3, 4, 5, 6, 7, 8, 9, 10, 11, 12, 13, 14] = 0x14"
  by (simp_all add: Crc8_bytes_def Crc8_byte_def Crc8_bit_def)

text \<open>The expectations of PacketDecodeTest.cpp, on its 16-byte buffer.\<close>

lemma PacketDecodeTest_results:
  "map_sum id fst (parseData (Packet_ctor 16 (replicate 16 0)) [0xC0, 0xC0]) = Inr NOT_DONE"
  "map_sum id fst (parseData (Packet_ctor 16 (replicate 16 0)) [0xC0, 0x01, 0x07, 0xC0]) = Inr NONE"
  "map_sum id fst (parseData (Packet_ctor 16 (replicate 16 0)) [0xC0, 0x01, 0x08, 0xC0]) = Inr CRC"
  "map_sum id fst (parseData (Packet_ctor 16 (replicate 16 0)) [0xC0, 0x01, 0xC0]) = Inr TOO_SMALL"
  "parseData (Packet_ctor 16 (replicate 16 0)) [0xC0, 0xDB, 0xDC, 0x02, 0x03, 0xAE, 0xC0] =
     Inr (NONE, \<lparr>m_maxData = 16, m_dataLen = 4, m_data = [0xC0, 0x02, 0x03, 0xAE] @ replicate 12 0,
                 m_state = IDLE, m_encodeIdx = 0\<rparr>)"
  "parseData (Packet_ctor 16 (replicate 16 0)) [0xC0, 0xDB, 0x01, 0x02, 0x03, 0x48, 0xC0] =
     Inr (NONE, \<lparr>m_maxData = 16, m_dataLen = 4, m_data = [0x01, 0x02, 0x03, 0x48] @ replicate 12 0,
                 m_state = IDLE, m_encodeIdx = 0\<rparr>)"
  "map_sum id fst (parseData (Packet_ctor 16 (replicate 16 0))
     [0xC0, 0, 1, 2, 3, 4, 5, 6, 7, 8, 9, 10, 11, 12, 13, 14, 0x14, 0xC0]) = Inr NONE"
  "map_sum id fst (parseData (Packet_ctor 16 (replicate 16 0))
     [0xC0, 0, 1, 2, 3, 4, 5, 6, 7, 8, 9, 10, 11, 12, 13, 14, 15, 0xE0, 0xC0]) = Inr TOO_MUCH_DATA"
  "map_sum id fst (parseData ((Packet_ctor 16 (replicate 16 0))\<lparr>m_state := OTHER\<rparr>)
     [0xC0, 0x00, 0x01, 0x07, 0xC0]) = Inr BAD_STATE"
  by code_simp+

text \<open>The expectations of PacketEncodeTest.cpp.\<close>

lemma PacketEncodeTest_results:
  "map_sum id fst (PacketEncodeTest 16 (replicate 16 0) 0x01 [] 0) = Inr [0xC0, 0x01, 0x07, 0xC0]"
  "map_sum id fst (PacketEncodeTest 16 (replicate 16 0) 0x01 [0x02] 0) =
     Inr [0xC0, 0x01, 0x02, 0x1B, 0xC0]"
  "map_sum id fst (PacketEncodeTest 16 (replicate 16 0) 0x01 [0x02, 0x03] 0) =
     Inr [0xC0, 0x01, 0x02, 0x03, 0x48, 0xC0]"
  "map_sum id fst (PacketEncodeTest 16 (replicate 16 0) 0xC0 [0x02, 0x03] 0) =
     Inr [0xC0, 0xDB, 0xDC, 0x02, 0x03, 0xAE, 0xC0]"
  "map_sum id fst (PacketEncodeTest 16 (replicate 16 0) 0xDB [0x02, 0x03] 0) =
     Inr [0xC0, 0xDB, 0xDD, 0x02, 0x03, 0xE0, 0xC0]"
  "(case setData (Packet_ctor 4 [0, 0, 0, 0]) [] of
      Inl f \<Rightarrow> Inl f | Inr p \<Rightarrow> appendData p [1, 2, 3, 4, 5]) = Inl AssertionFailed"
  by code_simp+

subsection \<open>The state machine of the decoder, step by step\<close>

text \<open>
  C6. Idle consumes the first byte: whatever byte arrives while the decoder is in IDLE,
  \<open>processByte\<close> sets the length to 0, moves to PACKET, leaves the buffer as it is and
  returns NOT_DONE. The byte does not appear in the result.
\<close>

theorem idle_consumes_first_byte:
  "m_state p = IDLE \<Longrightarrow>
     processByte p b = Inr (NOT_DONE, p\<lparr>m_state := PACKET, m_dataLen := 0\<rparr>)"
  by (simp add: processByte_def)

theorem idle_consumes_first_byte_witness:
  "m_state (Packet_ctor 16 (replicate 16 0)) = IDLE \<and>
   processByte (Packet_ctor 16 (replicate 16 0)) 0x55 =
     Inr (NOT_DONE, (Packet_ctor 16 (replicate 16 0))\<lparr>m_state := PACKET, m_dataLen := 0\<rparr>)"
  using idle_consumes_first_byte [of "Packet_ctor 16 (replicate 16 0)" "0x55"]
  by (simp add: Packet_ctor_def)

lemma processBytes_empty_frames:
  "m_state p = PACKET \<Longrightarrow> m_dataLen p = 0 \<Longrightarrow>
     processBytes p (replicate n END) = Inr (replicate n NOT_DONE, p)"
  by (induction n) (simp_all add: processByte_def)

text \<open>
  C7. Empty-frame tolerance: \<open>n \<ge> 1\<close> END bytes fed to a fresh decoder give NOT_DONE at
  every call, and leave the decoder in PACKET with length 0; an END that arrives in PACKET
  with length 0 changes nothing and returns NOT_DONE.
\<close>

theorem empty_frame_tolerance:
  "(1 \<le> n \<longrightarrow>
      processBytes (Packet_ctor maxData buf) (replicate n END) =
        Inr (replicate n NOT_DONE, (Packet_ctor maxData buf)\<lparr>m_state := PACKET\<rparr>))
   \<and> (m_state p = PACKET \<and> m_dataLen p = 0 \<longrightarrow> processByte p END = Inr (NOT_DONE, p))"
proof (intro conjI impI)
  assume "1 \<le> n"
  then obtain k where n: "n = Suc k" by (cases n) auto
  let ?p = "Packet_ctor maxData buf"
  have first: "processByte ?p END = Inr (NOT_DONE, ?p\<lparr>m_state := PACKET\<rparr>)"
    by (simp add: processByte_def Packet_ctor_def)
  have rest: "processBytes (?p\<lparr>m_state := PACKET\<rparr>) (replicate k END) =
      Inr (replicate k NOT_DONE, ?p\<lparr>m_state := PACKET\<rparr>)"
    by (rule processBytes_empty_frames) (simp_all add: Packet_ctor_def)
  show "processBytes ?p (replicate n END) =
      Inr (replicate n NOT_DONE, ?p\<lparr>m_state := PACKET\<rparr>)"
    by (simp add: n first rest)
next
  assume "m_state p = PACKET \<and> m_dataLen p = 0"
  then show "processByte p END = Inr (NOT_DONE, p)"
    by (simp add: processByte_def)
qed

theorem empty_frame_tolerance_witness:
  "(1::nat) \<le> 2 \<and>
   processBytes (Packet_ctor 16 (replicate 16 0)) [0xC0, 0xC0] =
     Inr ([NOT_DONE, NOT_DONE], (Packet_ctor 16 (replicate 16 0))\<lparr>m_state := PACKET\<rparr>) \<and>
   m_state ((Packet_ctor 16 (replicate 16 0))\<lparr>m_state := PACKET\<rparr>) = PACKET \<and>
   m_dataLen ((Packet_ctor 16 (replicate 16 0))\<lparr>m_state := PACKET\<rparr>) = 0 \<and>
   processByte ((Packet_ctor 16 (replicate 16 0))\<lparr>m_state := PACKET\<rparr>) 0xC0 =
     Inr (NOT_DONE, (Packet_ctor 16 (replicate 16 0))\<lparr>m_state := PACKET\<rparr>)"
  using empty_frame_tolerance [of 2 16 "replicate 16 0"
      "(Packet_ctor 16 (replicate 16 0))\<lparr>m_state := PACKET\<rparr>"]
  by (simp add: END_def numeral_2_eq_2 Packet_ctor_def)



subsection \<open>The accessors\<close>

text \<open>
  C9. \<open>crc()\<close> asserts \<open>m_dataLen >= 2\<close>: with at least two bytes stored it reads
  \<open>m_data[m_dataLen - 1]\<close>; with fewer (a fresh packet, or one that has only consumed the
  opening END) the assertion fails and no value is returned.
\<close>

theorem crc_accessor:
  "(2 \<le> m_dataLen p \<longrightarrow> crc p = load p (m_dataLen p - 1))
   \<and> (2 \<le> m_dataLen p \<and> m_dataLen p \<le> length (m_data p) \<longrightarrow>
        crc p = Inr (m_data p ! (m_dataLen p - 1)))
   \<and> (m_dataLen p < 2 \<longrightarrow> crc p = Inl AssertionFailed)
   \<and> crc (Packet_ctor maxData buf) = Inl AssertionFailed
   \<and> (\<forall>e q. processByte (Packet_ctor maxData buf) END = Inr (e, q) \<longrightarrow>
        crc q = Inl AssertionFailed)"
  by (auto simp: crc_def load_def processByte_def Packet_ctor_def)

theorem crc_accessor_witness:
  "crc \<lparr>m_maxData = 4, m_dataLen = 3, m_data = [1, 2, 0x1B, 0], m_state = IDLE,
        m_encodeIdx = 0\<rparr> = Inr 0x1B
   \<and> crc \<lparr>m_maxData = 4, m_dataLen = 1, m_data = [1, 2, 0x1B, 0], m_state = PACKET,
        m_encodeIdx = 0\<rparr> = Inl AssertionFailed
   \<and> processByte (Packet_ctor 4 [0, 0, 0, 0]) END =
        Inr (NOT_DONE, (Packet_ctor 4 [0, 0, 0, 0])\<lparr>m_state := PACKET\<rparr>)
   \<and> crc ((Packet_ctor 4 [0, 0, 0, 0])\<lparr>m_state := PACKET\<rparr>) = Inl AssertionFailed"
  using crc_accessor [of "\<lparr>m_maxData = 4, m_dataLen = 3, m_data = [1, 2, 0x1B, 0],
        m_state = IDLE, m_encodeIdx = 0\<rparr>" 4 "[0, 0, 0, 0]"]
    crc_accessor [of "\<lparr>m_maxData = 4, m_dataLen = 1, m_data = [1, 2, 0x1B, 0],
        m_state = PACKET, m_encodeIdx = 0\<rparr>" 4 "[0, 0, 0, 0]"]
  by (simp add: processByte_def Packet_ctor_def load_def)

lemma ucast_of_int_64_8: "(ucast (word_of_int k :: 64 word) :: 8 word) = word_of_int k"
  by (rule bit_word_eqI) (auto simp: bit_simps)

lemma uint_of_int_8: "uint (word_of_int k :: 8 word) = k mod 256"
  by (simp add: uint_word_of_int)

lemma length_pkt_of_int: "length_pkt p = word_of_int (int (m_dataLen p) - 2)"
proof -
  have "(word_of_nat (m_dataLen p) :: 64 word) - 2 = word_of_int (int (m_dataLen p) - 2)"
    by simp
  then show ?thesis
    unfolding length_pkt_def by (simp only: ucast_of_int_64_8)
qed

lemma length_pkt_unat: "unat (length_pkt p) = (m_dataLen p + 254) mod 256"
proof -
  have "uint (length_pkt p) = (int (m_dataLen p) - 2) mod 256"
    unfolding length_pkt_of_int by (rule uint_of_int_8)
  also have "\<dots> = (int (m_dataLen p) - 2 + 256) mod 256"
    by (simp only: mod_add_self2)
  also have "int (m_dataLen p) - 2 + 256 = int (m_dataLen p + 254)"
    by simp
  also have "int (m_dataLen p + 254) mod 256 = int ((m_dataLen p + 254) mod 256)"
    by (simp add: zmod_int)
  finally show ?thesis
    by (simp add: unat_eq_nat_uint)
qed

lemma mod_small_case:
  fixes n :: nat
  assumes "2 \<le> n" "n - 2 < 256"
  shows "(n + 254) mod 256 = n - 2"
proof -
  have "n + 254 = (n - 2) + 256" using assms by simp
  then have "(n + 254) mod 256 = (n - 2) mod 256" by (simp only: mod_add_self2)
  with assms show ?thesis by simp
qed

text \<open>
  C10. \<open>length()\<close> is \<open>m_dataLen - 2\<close> cut to eight bits: it wraps modulo 256, a
  fresh packet reports 254, and the result is the number of bytes between command and CRC
  exactly when \<open>m_dataLen\<close> is at least 2 and \<open>m_dataLen - 2\<close> is below 256.
\<close>

theorem length_accessor_wraps:
  "unat (length_pkt p) = (m_dataLen p + 254) mod 256
   \<and> (m_dataLen p < 2 \<longrightarrow> unat (length_pkt p) = m_dataLen p + 254)
   \<and> length_pkt (Packet_ctor maxData buf) = 254
   \<and> (int (unat (length_pkt p)) = int (m_dataLen p) - 2
        \<longleftrightarrow> 2 \<le> m_dataLen p \<and> m_dataLen p - 2 < 256)"
proof (intro conjI impI)
  show u: "unat (length_pkt p) = (m_dataLen p + 254) mod 256"
    by (rule length_pkt_unat)
  show "unat (length_pkt p) = m_dataLen p + 254" if "m_dataLen p < 2"
    using that by (simp add: length_pkt_unat)
  show "length_pkt (Packet_ctor maxData buf) = 254"
    by (simp add: length_pkt_of_int Packet_ctor_def)
  show "int (unat (length_pkt p)) = int (m_dataLen p) - 2
        \<longleftrightarrow> 2 \<le> m_dataLen p \<and> m_dataLen p - 2 < 256"
  proof (cases "2 \<le> m_dataLen p \<and> m_dataLen p - 2 < 256")
    case True
    then have "(m_dataLen p + 254) mod 256 = m_dataLen p - 2"
      by (simp add: mod_small_case)
    with True show ?thesis unfolding u by auto
  next
    case False
    have "(m_dataLen p + 254) mod 256 < 256" by simp
    with False show ?thesis unfolding u by auto
  qed
qed

theorem length_accessor_wraps_witness:
  "unat (length_pkt (Packet_ctor 16 (replicate 16 0))) = 254
   \<and> unat (length_pkt ((Packet_ctor 16 (replicate 16 0))\<lparr>m_dataLen := 1\<rparr>)) = 255
   \<and> unat (length_pkt ((Packet_ctor 16 (replicate 16 0))\<lparr>m_dataLen := 4\<rparr>)) = 2
   \<and> unat (length_pkt ((Packet_ctor 300 (replicate 300 0))\<lparr>m_dataLen := 300\<rparr>)) = 42"
  using length_accessor_wraps [of "Packet_ctor 16 (replicate 16 0)" 16 "replicate 16 0"]
    length_accessor_wraps [of "(Packet_ctor 16 (replicate 16 0))\<lparr>m_dataLen := 1\<rparr>" 16 "[]"]
    length_accessor_wraps [of "(Packet_ctor 16 (replicate 16 0))\<lparr>m_dataLen := 4\<rparr>" 16 "[]"]
    length_accessor_wraps [of "(Packet_ctor 300 (replicate 300 0))\<lparr>m_dataLen := 300\<rparr>" 16 "[]"]
  by (simp add: Packet_ctor_def)

subsection \<open>The capacity of the buffer\<close>

lemma pkt_inv_ctor: "length buf = maxData \<Longrightarrow> pkt_inv (Packet_ctor maxData buf)"
  by (simp add: pkt_inv_def Packet_ctor_def)

lemma processByte_inv:
  assumes "pkt_inv p"
  shows "\<exists>e q. processByte p b = Inr (e, q) \<and> pkt_inv q \<and> m_maxData q = m_maxData p"
proof (cases "m_state p")
  case IDLE
  with assms show ?thesis by (simp add: processByte_def pkt_inv_def)
next
  case PACKET
  with assms show ?thesis
    by (auto simp: processByte_def pkt_inv_def load_def store_def Crc8_def)
next
  case ESCAPE
  with assms show ?thesis
    by (auto simp: processByte_def pkt_inv_def store_def)
next
  case OTHER
  with assms show ?thesis by (simp add: processByte_def)
qed

lemma processBytes_inv:
  "pkt_inv p \<Longrightarrow>
     \<exists>es q. processBytes p bs = Inr (es, q) \<and> pkt_inv q \<and> m_maxData q = m_maxData p
            \<and> length es = length bs"
proof (induction bs arbitrary: p)
  case Nil
  then show ?case by simp
next
  case (Cons b bs)
  from processByte_inv [OF Cons.prems, of b] obtain e p'
    where step: "processByte p b = Inr (e, p')" and inv': "pkt_inv p'"
      and cap: "m_maxData p' = m_maxData p"
    by blast
  from Cons.IH [OF inv'] obtain es q
    where rest: "processBytes p' bs = Inr (es, q)" and "pkt_inv q"
      and "m_maxData q = m_maxData p'" and "length es = length bs"
    by blast
  with step cap show ?case by simp
qed

lemma processByte_full:
  "m_state q = PACKET \<Longrightarrow> m_dataLen q = m_maxData q \<Longrightarrow> b \<noteq> END \<Longrightarrow>
     processByte q b = Inr (TOO_MUCH_DATA, q)"
  by (simp add: processByte_def)

lemma processByte_write:
  assumes "pkt_inv q" and "processByte q b = Inr (e, q')"
  shows "m_data q' = m_data q \<and> m_dataLen q' \<le> m_dataLen q \<or>
         m_dataLen q < m_maxData q \<and> m_dataLen q' = m_dataLen q + 1 \<and>
         (\<exists>v. m_data q' = (m_data q)[m_dataLen q := v])"
proof (cases "m_state q")
  case IDLE
  with assms show ?thesis by (auto simp: processByte_def)
next
  case PACKET
  with assms show ?thesis
    by (auto simp: processByte_def pkt_inv_def load_def store_def Crc8_def
        split: if_splits)
next
  case ESCAPE
  with assms show ?thesis
    by (auto simp: processByte_def pkt_inv_def store_def split: if_splits)
next
  case OTHER
  with assms show ?thesis by (auto simp: processByte_def)
qed

text \<open>
  C4. Capacity enforcement: on a packet constructed over a buffer of \<open>maxData\<close> bytes,
  whatever bytes are fed, no call reads or writes outside the buffer (every call returns a
  result, none the fault), the length never exceeds \<open>maxData\<close>, a call either leaves the
  buffer as it is or writes one byte at index \<open>m_dataLen < maxData\<close>, and a byte that
  arrives for a frame whose length is already \<open>maxData\<close> gets TOO_MUCH_DATA and changes
  nothing.
\<close>

theorem capacity_enforcement:
  assumes "length buf = maxData"
  shows "\<exists>es q. processBytes (Packet_ctor maxData buf) bs = Inr (es, q)
           \<and> m_maxData q = maxData \<and> length (m_data q) = maxData
           \<and> m_dataLen q \<le> maxData
           \<and> (\<forall>b. \<exists>e q'. processByte q b = Inr (e, q')
                \<and> (m_data q' = m_data q \<and> m_dataLen q' \<le> m_dataLen q \<or>
                    m_dataLen q < maxData \<and> m_dataLen q' = m_dataLen q + 1 \<and>
                    (\<exists>v. m_data q' = (m_data q)[m_dataLen q := v])))
           \<and> (\<forall>b. m_dataLen q = maxData \<and> m_state q \<noteq> IDLE \<and> b \<noteq> END \<longrightarrow>
                  processByte q b = Inr (TOO_MUCH_DATA, q))"
proof -
  from processBytes_inv [OF pkt_inv_ctor [OF assms], of bs] obtain es q
    where run: "processBytes (Packet_ctor maxData buf) bs = Inr (es, q)"
      and inv: "pkt_inv q" and cap: "m_maxData q = m_maxData (Packet_ctor maxData buf)"
    by blast
  from cap have cap': "m_maxData q = maxData" by (simp add: Packet_ctor_def)
  have w: "\<exists>e q'. processByte q b = Inr (e, q')
                \<and> (m_data q' = m_data q \<and> m_dataLen q' \<le> m_dataLen q \<or>
                    m_dataLen q < maxData \<and> m_dataLen q' = m_dataLen q + 1 \<and>
                    (\<exists>v. m_data q' = (m_data q)[m_dataLen q := v]))" for b
  proof -
    from processByte_inv [OF inv, of b] obtain e q'
      where step: "processByte q b = Inr (e, q')" by blast
    from processByte_write [OF inv step] cap' step show ?thesis by simp
  qed
  have full: "processByte q b = Inr (TOO_MUCH_DATA, q)"
    if "m_dataLen q = maxData \<and> m_state q \<noteq> IDLE \<and> b \<noteq> END" for b
  proof -
    from that inv cap' have "m_state q = PACKET"
      by (cases "m_state q") (auto simp: pkt_inv_def)
    with that cap' show ?thesis by (simp add: processByte_full)
  qed
  from run cap' inv w full show ?thesis
    by (auto simp: pkt_inv_def)
qed

theorem capacity_enforcement_witness:
  "length [0, 0 :: byte] = 2 \<and>
   (\<exists>es q. processBytes (Packet_ctor 2 [0, 0]) [0xC0, 1, 2] = Inr (es, q)
           \<and> m_maxData q = 2 \<and> length (m_data q) = 2
           \<and> m_dataLen q \<le> 2
           \<and> (\<forall>b. \<exists>e q'. processByte q b = Inr (e, q')
                \<and> (m_data q' = m_data q \<and> m_dataLen q' \<le> m_dataLen q \<or>
                    m_dataLen q < 2 \<and> m_dataLen q' = m_dataLen q + 1 \<and>
                    (\<exists>v. m_data q' = (m_data q)[m_dataLen q := v])))
           \<and> (\<forall>b. m_dataLen q = 2 \<and> m_state q \<noteq> IDLE \<and> b \<noteq> END \<longrightarrow>
                  processByte q b = Inr (TOO_MUCH_DATA, q)))
   \<and> processBytes (Packet_ctor 2 [0, 0]) [0xC0, 1, 2, 3] =
       Inr ([NOT_DONE, NOT_DONE, NOT_DONE, TOO_MUCH_DATA],
            \<lparr>m_maxData = 2, m_dataLen = 2, m_data = [1, 2], m_state = PACKET,
             m_encodeIdx = 0\<rparr>)"
proof -
  have len: "length [0, 0 :: byte] = 2" by simp
  have run: "processBytes (Packet_ctor 2 [0, 0]) [0xC0, 1, 2, 3] =
       Inr ([NOT_DONE, NOT_DONE, NOT_DONE, TOO_MUCH_DATA],
            \<lparr>m_maxData = 2, m_dataLen = 2, m_data = [1, 2], m_state = PACKET,
             m_encodeIdx = 0\<rparr>)"
    by code_simp
  from capacity_enforcement [OF len, of "[0xC0, 1, 2]"] len run show ?thesis
    by blast
qed

text \<open>
  C8. Lenient de-escaping: in every ESCAPE state with room for one more byte, the next
  byte is stored as END when it is ESC_END, as ESC when it is ESC_ESC and as itself
  otherwise; the call returns NOT_DONE and the state is PACKET again, so no byte is
  rejected. An ESC that arrives in PACKET below the capacity enters ESCAPE, so ESC followed
  by any byte stores the de-escaped byte; and every ESCAPE state a decode session reaches
  from a constructed packet has that room.
\<close>

theorem lenient_deescaping:
  "(m_state p = ESCAPE \<and> m_dataLen p < length (m_data p) \<longrightarrow>
      processByte p b =
        Inr (NOT_DONE,
             p\<lparr>m_data := (m_data p)[m_dataLen p :=
                    (if b = ESC_END then END else if b = ESC_ESC then ESC else b)],
               m_dataLen := m_dataLen p + 1, m_state := PACKET\<rparr>))
   \<and> (m_state p = PACKET \<and> m_dataLen p < m_maxData p \<longrightarrow>
        processByte p ESC = Inr (NOT_DONE, p\<lparr>m_state := ESCAPE\<rparr>))
   \<and> (m_state p = PACKET \<and> m_dataLen p < m_maxData p \<and> m_dataLen p < length (m_data p) \<longrightarrow>
        processBytes p [ESC, b] =
          Inr ([NOT_DONE, NOT_DONE],
               p\<lparr>m_data := (m_data p)[m_dataLen p :=
                      (if b = ESC_END then END else if b = ESC_ESC then ESC else b)],
                 m_dataLen := m_dataLen p + 1, m_state := PACKET\<rparr>))
   \<and> (length buf = maxData \<and> processBytes (Packet_ctor maxData buf) bs = Inr (es, q)
        \<and> m_state q = ESCAPE \<longrightarrow> m_dataLen q < length (m_data q))"
proof (intro conjI impI)
  assume "m_state p = ESCAPE \<and> m_dataLen p < length (m_data p)"
  then show "processByte p b =
        Inr (NOT_DONE,
             p\<lparr>m_data := (m_data p)[m_dataLen p :=
                    (if b = ESC_END then END else if b = ESC_ESC then ESC else b)],
               m_dataLen := m_dataLen p + 1, m_state := PACKET\<rparr>)"
    by (simp add: processByte_def store_def)
next
  assume "m_state p = PACKET \<and> m_dataLen p < m_maxData p"
  then show "processByte p ESC = Inr (NOT_DONE, p\<lparr>m_state := ESCAPE\<rparr>)"
    by (simp add: processByte_def END_def ESC_def)
next
  assume "m_state p = PACKET \<and> m_dataLen p < m_maxData p \<and> m_dataLen p < length (m_data p)"
  then show "processBytes p [ESC, b] =
          Inr ([NOT_DONE, NOT_DONE],
               p\<lparr>m_data := (m_data p)[m_dataLen p :=
                      (if b = ESC_END then END else if b = ESC_ESC then ESC else b)],
                 m_dataLen := m_dataLen p + 1, m_state := PACKET\<rparr>)"
    by (simp add: processByte_def store_def END_def ESC_def)
next
  assume h: "length buf = maxData \<and> processBytes (Packet_ctor maxData buf) bs = Inr (es, q)
        \<and> m_state q = ESCAPE"
  then have "pkt_inv (Packet_ctor maxData buf)" by (simp add: pkt_inv_ctor)
  from processBytes_inv [OF this, of bs] h have "pkt_inv q" by auto
  with h show "m_dataLen q < length (m_data q)"
    by (simp add: pkt_inv_def)
qed

theorem lenient_deescaping_witness:
  "length [0, 0, 0, 0 :: byte] = 4 \<and>
   processBytes (Packet_ctor 4 [0, 0, 0, 0]) [0xC0, 0xDB] =
     Inr ([NOT_DONE, NOT_DONE], (Packet_ctor 4 [0, 0, 0, 0])\<lparr>m_state := ESCAPE\<rparr>) \<and>
   m_state ((Packet_ctor 4 [0, 0, 0, 0])\<lparr>m_state := ESCAPE\<rparr>) = ESCAPE \<and>
   m_dataLen ((Packet_ctor 4 [0, 0, 0, 0])\<lparr>m_state := ESCAPE\<rparr>)
     < length (m_data ((Packet_ctor 4 [0, 0, 0, 0])\<lparr>m_state := ESCAPE\<rparr>)) \<and>
   processByte ((Packet_ctor 4 [0, 0, 0, 0])\<lparr>m_state := ESCAPE\<rparr>) 0x01 =
     Inr (NOT_DONE, \<lparr>m_maxData = 4, m_dataLen = 1, m_data = [1, 0, 0, 0],
                     m_state = PACKET, m_encodeIdx = 0\<rparr>) \<and>
   processByte ((Packet_ctor 4 [0, 0, 0, 0])\<lparr>m_state := ESCAPE\<rparr>) 0xDC =
     Inr (NOT_DONE, \<lparr>m_maxData = 4, m_dataLen = 1, m_data = [0xC0, 0, 0, 0],
                     m_state = PACKET, m_encodeIdx = 0\<rparr>) \<and>
   processByte ((Packet_ctor 4 [0, 0, 0, 0])\<lparr>m_state := ESCAPE\<rparr>) 0xDD =
     Inr (NOT_DONE, \<lparr>m_maxData = 4, m_dataLen = 1, m_data = [0xDB, 0, 0, 0],
                     m_state = PACKET, m_encodeIdx = 0\<rparr>) \<and>
   processByte ((Packet_ctor 4 [0, 0, 0, 0])\<lparr>m_state := PACKET\<rparr>) 0xDB =
     Inr (NOT_DONE, (Packet_ctor 4 [0, 0, 0, 0])\<lparr>m_state := ESCAPE\<rparr>) \<and>
   processBytes ((Packet_ctor 4 [0, 0, 0, 0])\<lparr>m_state := PACKET\<rparr>) [0xDB, 0xDC] =
     Inr ([NOT_DONE, NOT_DONE], \<lparr>m_maxData = 4, m_dataLen = 1, m_data = [0xC0, 0, 0, 0],
                     m_state = PACKET, m_encodeIdx = 0\<rparr>)"
proof -
  let ?e = "(Packet_ctor 4 [0, 0, 0, 0])\<lparr>m_state := ESCAPE\<rparr>"
  let ?k = "(Packet_ctor 4 [0, 0, 0, 0])\<lparr>m_state := PACKET\<rparr>"
  have run: "processBytes (Packet_ctor 4 [0, 0, 0, 0]) [0xC0, 0xDB] =
     Inr ([NOT_DONE, NOT_DONE], ?e)"
    by code_simp
  from lenient_deescaping [where p = "?e" and b = "0x01" and maxData = 4 and buf = "[0, 0, 0, 0]"
      and bs = "[0xC0, 0xDB]" and es = "[NOT_DONE, NOT_DONE]" and q = "?e"]
    lenient_deescaping [where p = "?e" and b = "0xDC" and maxData = 4 and buf = "[0, 0, 0, 0]"
      and bs = "[0xC0, 0xDB]" and es = "[NOT_DONE, NOT_DONE]" and q = "?e"]
    lenient_deescaping [where p = "?e" and b = "0xDD" and maxData = 4 and buf = "[0, 0, 0, 0]"
      and bs = "[0xC0, 0xDB]" and es = "[NOT_DONE, NOT_DONE]" and q = "?e"]
    lenient_deescaping [where p = "?k" and b = "0xDC" and maxData = 4 and buf = "[0, 0, 0, 0]"
      and bs = "[0xC0, 0xDB]" and es = "[NOT_DONE, NOT_DONE]" and q = "?e"]
    run
  show ?thesis
    by (simp add: Packet_ctor_def END_def ESC_def ESC_END_def ESC_ESC_def)
qed

subsection \<open>What the encoder produces\<close>

text \<open>
  One call of \<open>encodeByte\<close> unfolds the loop once.
\<close>

lemma encodeLoop_step:
  "encodeByte p c = Inr (NOT_DONE, c', p') \<Longrightarrow>
     encodeLoop p c =
       (case encodeLoop p' c' of Inl f \<Rightarrow> Inl f | Inr (bs, e, q) \<Rightarrow> Inr (c' # bs, e, q))"
  by (subst encodeLoop.simps) simp

lemma encodeLoop_stop:
  "encodeByte p c = Inr (e, c', p') \<Longrightarrow> e \<noteq> NOT_DONE \<Longrightarrow>
     encodeLoop p c = Inr ([c'], e, p')"
  by (subst encodeLoop.simps) simp

lemma encodeLoop_tail:
  assumes "m_state p = PACKET" "m_dataLen p < m_encodeIdx p"
  shows "encodeLoop p c = Inr ([END], NONE, p\<lparr>m_state := IDLE\<rparr>)"
  using assms by (intro encodeLoop_stop) (auto simp: encodeByte_def)

lemma encodeLoop_crc:
  assumes "m_state p = PACKET" "m_encodeIdx p = m_dataLen p" "m_dataLen p \<le> length (m_data p)"
  shows "encodeLoop p c =
    Inr ([Crc8_bytes 0 (take (m_dataLen p) (m_data p)), END], NONE,
         p\<lparr>m_encodeIdx := m_dataLen p + 1, m_state := IDLE\<rparr>)"
proof -
  let ?q = "p\<lparr>m_encodeIdx := m_encodeIdx p + 1\<rparr>"
  have step: "encodeByte p c = Inr (NOT_DONE, Crc8_bytes 0 (take (m_dataLen p) (m_data p)), ?q)"
    using assms by (simp add: encodeByte_def Crc8_def)
  have "encodeLoop ?q c' = Inr ([END], NONE, ?q\<lparr>m_state := IDLE\<rparr>)" for c'
    by (rule encodeLoop_tail) (simp_all add: assms)
  then show ?thesis
    using assms(2) by (simp add: encodeLoop_step [OF step])
qed

lemma encodeLoop_data:
  assumes "m_state p = PACKET" "m_encodeIdx p \<le> m_dataLen p" "m_dataLen p \<le> length (m_data p)"
  shows "encodeLoop p c =
    Inr (concat (map slip_escape (drop (m_encodeIdx p) (take (m_dataLen p) (m_data p))))
           @ [Crc8_bytes 0 (take (m_dataLen p) (m_data p)), END], NONE,
         p\<lparr>m_encodeIdx := m_dataLen p + 1, m_state := IDLE\<rparr>)"
  using assms
proof (induction "m_dataLen p - m_encodeIdx p" arbitrary: p c)
  case 0
  then have "m_encodeIdx p = m_dataLen p" by simp
  with 0 show ?case by (simp add: encodeLoop_crc)
next
  case (Suc k)
  let ?i = "m_encodeIdx p"
  let ?b = "m_data p ! ?i"
  from Suc have lt: "?i < m_dataLen p" and inb: "?i < length (m_data p)" by simp_all
  let ?q = "p\<lparr>m_encodeIdx := ?i + 1\<rparr>"
  have IH: "encodeLoop ?q c' =
    Inr (concat (map slip_escape (drop (?i + 1) (take (m_dataLen p) (m_data p))))
           @ [Crc8_bytes 0 (take (m_dataLen p) (m_data p)), END], NONE,
         p\<lparr>m_encodeIdx := m_dataLen p + 1, m_state := IDLE\<rparr>)" for c'
    using Suc.hyps(1) [of ?q c'] Suc.hyps(2) Suc.prems lt by simp
  have dr: "drop ?i (take (m_dataLen p) (m_data p)) = ?b # drop (?i + 1) (take (m_dataLen p) (m_data p))"
    using lt inb Suc.prems(3) by (simp add: Cons_nth_drop_Suc [symmetric])
  show ?case
  proof (cases "?b = END \<or> ?b = ESC")
    case False
    then have step: "encodeByte p c = Inr (NOT_DONE, ?b, ?q)"
      using Suc.prems lt inb by (simp add: encodeByte_def load_def)
    from False have "slip_escape ?b = [?b]" by (simp add: slip_escape_def)
    with IH dr show ?thesis
      by (simp add: encodeLoop_step [OF step])
  next
    case True
    let ?e = "p\<lparr>m_state := ESCAPE\<rparr>"
    have step1: "encodeByte p c = Inr (NOT_DONE, ESC, ?e)"
      using True Suc.prems lt inb by (simp add: encodeByte_def load_def)
    have step2: "encodeByte ?e ESC =
       Inr (NOT_DONE, (if ?b = END then ESC_END else ESC_ESC), ?q)"
      using Suc.prems(1) inb by (simp add: encodeByte_def load_def)
    have loop2: "encodeLoop ?e ESC =
       Inr ((if ?b = END then ESC_END else ESC_ESC) #
            concat (map slip_escape (drop (?i + 1) (take (m_dataLen p) (m_data p))))
           @ [Crc8_bytes 0 (take (m_dataLen p) (m_data p)), END], NONE,
         p\<lparr>m_encodeIdx := m_dataLen p + 1, m_state := IDLE\<rparr>)"
      using IH by (simp add: encodeLoop_step [OF step2])
    from True have "slip_escape ?b = [ESC, (if ?b = END then ESC_END else ESC_ESC)]"
      by (auto simp: slip_escape_def END_def ESC_def)
    with loop2 dr show ?thesis
      by (simp add: encodeLoop_step [OF step1])
  qed
qed

lemma encodeLoop_frame:
  assumes "m_dataLen p \<le> length (m_data p)"
  shows "encodeLoop (encodeStart p) c =
    Inr (END # concat (map slip_escape (take (m_dataLen p) (m_data p)))
           @ [Crc8_bytes 0 (take (m_dataLen p) (m_data p)), END], NONE,
         p\<lparr>m_encodeIdx := m_dataLen p + 1, m_state := IDLE\<rparr>)"
proof -
  let ?q = "p\<lparr>m_encodeIdx := 0, m_state := PACKET\<rparr>"
  have step: "encodeByte (encodeStart p) c = Inr (NOT_DONE, END, ?q)"
    by (simp add: encodeByte_def encodeStart_def)
  have "encodeLoop ?q END =
    Inr (concat (map slip_escape (drop (m_encodeIdx ?q) (take (m_dataLen ?q) (m_data ?q))))
           @ [Crc8_bytes 0 (take (m_dataLen ?q) (m_data ?q)), END], NONE,
         ?q\<lparr>m_encodeIdx := m_dataLen ?q + 1, m_state := IDLE\<rparr>)"
    by (rule encodeLoop_data) (simp_all add: assms)
  then show ?thesis
    by (simp add: encodeLoop_step [OF step])
qed

lemma mkPacket:
  assumes "length buf = maxData" "length payload + 1 \<le> maxData"
  shows "\<exists>p. (case command_set (Packet_ctor maxData buf) cmd of
                 Inl f \<Rightarrow> Inl f | Inr p1 \<Rightarrow> setData p1 payload) = Inr p
             \<and> m_maxData p = maxData \<and> length (m_data p) = maxData
             \<and> m_dataLen p = length payload + 1
             \<and> take (m_dataLen p) (m_data p) = cmd # payload"
proof (cases payload)
  case Nil
  with assms show ?thesis
    by (cases buf) (auto simp: command_set_def setData_def appendData_def Packet_ctor_def)
next
  case (Cons a as)
  with assms show ?thesis
    by (cases buf) (auto simp: command_set_def setData_def appendData_def Packet_ctor_def)
qed

lemma PacketEncodeTest_frame:
  assumes "length buf = maxData" "length payload + 1 \<le> maxData"
  shows "\<exists>p. PacketEncodeTest maxData buf cmd payload nextByte =
           Inr (END # concat (map slip_escape (cmd # payload))
                  @ [Crc8_bytes 0 (cmd # payload), END], NONE, p)"
proof -
  from mkPacket [OF assms, of cmd] obtain p
    where mk: "(case command_set (Packet_ctor maxData buf) cmd of
                 Inl f \<Rightarrow> Inl f | Inr p1 \<Rightarrow> setData p1 payload) = Inr p"
      and len: "length (m_data p) = maxData" "m_dataLen p = length payload + 1"
      and content: "take (m_dataLen p) (m_data p) = cmd # payload"
    by blast
  from len assms have "m_dataLen p \<le> length (m_data p)" by simp
  from encodeLoop_frame [OF this, of nextByte] content
  have "encodeLoop (encodeStart p) nextByte =
    Inr (END # concat (map slip_escape (cmd # payload))
           @ [Crc8_bytes 0 (cmd # payload), END], NONE,
         p\<lparr>m_encodeIdx := m_dataLen p + 1, m_state := IDLE\<rparr>)"
    by simp
  with mk show ?thesis
    by (auto simp: PacketEncodeTest_def split: sum.splits)
qed

text \<open>
  C2. Wire-format escaping asks for END and ESC to be escaped everywhere inside
  command, payload and CRC, so that the only bare END bytes are the two delimiters.
  The encoder escapes the command and the payload (\<open>PacketEncodeTest_frame\<close>: a payload
  of END, ESC becomes ESC ESC_END ESC ESC_ESC) but emits the CRC byte as it is. The command
  0x41 alone has CRC 0xC0 and is sent as C0 41 C0 C0; the command 0x44 alone has CRC 0xDB and
  is sent as C0 44 DB C0.
\<close>

theorem crc_trailer_not_escaped:
  "Crc8_bytes 0 [0x41] = END
   \<and> PacketEncodeTest 16 (replicate 16 0) 0x41 [] 0 =
     Inr ([END, 0x41, END, END], NONE,
          \<lparr>m_maxData = 16, m_dataLen = 1, m_data = 0x41 # replicate 15 0, m_state = IDLE,
           m_encodeIdx = 2\<rparr>)
   \<and> Crc8_bytes 0 [0x44] = ESC
   \<and> PacketEncodeTest 16 (replicate 16 0) 0x44 [] 0 =
     Inr ([END, 0x44, ESC, END], NONE,
          \<lparr>m_maxData = 16, m_dataLen = 1, m_data = 0x44 # replicate 15 0, m_state = IDLE,
           m_encodeIdx = 2\<rparr>)
   \<and> PacketEncodeTest 16 (replicate 16 0) 0x01 [END, ESC] 0 =
     Inr ([END, 0x01, ESC, ESC_END, ESC, ESC_ESC, 0x89, END], NONE,
          \<lparr>m_maxData = 16, m_dataLen = 3, m_data = [0x01, END, ESC] @ replicate 13 0,
           m_state = IDLE, m_encodeIdx = 4\<rparr>)"
  by (intro conjI; code_simp)

subsection \<open>Decoding a frame\<close>

lemma processBytes_append:
  "processBytes p (as @ bs) =
     (case processBytes p as of
        Inl f \<Rightarrow> Inl f
      | Inr (es, q) \<Rightarrow>
          (case processBytes q bs of
             Inl f \<Rightarrow> Inl f
           | Inr (es', r) \<Rightarrow> Inr (es @ es', r)))"
  by (induction as arbitrary: p) (auto split: sum.splits)

lemma processBytes_escaped_byte:
  assumes "m_state p = PACKET" "m_dataLen p < m_maxData p" "m_maxData p \<le> length (m_data p)"
  shows "processBytes p (slip_escape x) =
     Inr (replicate (length (slip_escape x)) NOT_DONE,
          p\<lparr>m_data := (m_data p)[m_dataLen p := x], m_dataLen := m_dataLen p + 1\<rparr>)"
proof -
  consider "x = END" | "x = ESC" | "x \<noteq> END" "x \<noteq> ESC" by blast
  then show ?thesis
  proof cases
    case 1
    with assms show ?thesis
      by (simp add: slip_escape_def processByte_def store_def END_def ESC_def ESC_END_def)
  next
    case 2
    with assms show ?thesis
      by (simp add: slip_escape_def processByte_def store_def END_def ESC_def ESC_END_def
          ESC_ESC_def)
  next
    case 3
    with assms show ?thesis
      by (simp add: slip_escape_def processByte_def store_def)
  qed
qed

lemma processBytes_escaped:
  assumes "m_state p = PACKET" "m_dataLen p + length xs \<le> m_maxData p"
    "m_maxData p \<le> length (m_data p)"
  shows "processBytes p (concat (map slip_escape xs)) =
     Inr (replicate (length (concat (map slip_escape xs))) NOT_DONE,
          p\<lparr>m_data := take (m_dataLen p) (m_data p) @ xs
                         @ drop (m_dataLen p + length xs) (m_data p),
            m_dataLen := m_dataLen p + length xs\<rparr>)"
  using assms
proof (induction xs arbitrary: p)
  case Nil
  then show ?case by simp
next
  case (Cons x xs)
  let ?n = "m_dataLen p"
  let ?q = "p\<lparr>m_data := (m_data p)[?n := x], m_dataLen := Suc ?n\<rparr>"
  from Cons.prems have lt: "?n < m_maxData p" and inb: "?n < length (m_data p)" by simp_all
  have first: "processBytes p (slip_escape x) =
     Inr (replicate (length (slip_escape x)) NOT_DONE, ?q)"
    using processBytes_escaped_byte [OF Cons.prems(1) lt Cons.prems(3), of x] by simp
  have lists: "take (Suc ?n) ((m_data p)[?n := x]) = take ?n (m_data p) @ [x]"
    using inb by (simp add: take_Suc_conv_app_nth)
  have rest: "processBytes ?q (concat (map slip_escape xs)) =
     Inr (replicate (length (concat (map slip_escape xs))) NOT_DONE,
          p\<lparr>m_data := take ?n (m_data p) @ x # xs
                         @ drop (Suc (?n + length xs)) (m_data p),
            m_dataLen := Suc (?n + length xs)\<rparr>)"
    using Cons.IH [of ?q] Cons.prems lists by simp
  show ?case
    by (simp add: processBytes_append first rest replicate_add [symmetric])
qed

lemma decode_frame:
  assumes "length buf = maxData" "length xs + 1 \<le> maxData" "xs \<noteq> []"
    "c \<noteq> END" "c \<noteq> ESC"
  shows "processBytes (Packet_ctor maxData buf) (END # concat (map slip_escape xs) @ [c, END]) =
     Inr (replicate (length (concat (map slip_escape xs)) + 2) NOT_DONE
            @ [if c = Crc8_bytes 0 xs then NONE else CRC],
          \<lparr>m_maxData = maxData, m_dataLen = length xs + 1,
           m_data = xs @ c # drop (length xs + 1) buf,
           m_state = (if c = Crc8_bytes 0 xs then IDLE else PACKET), m_encodeIdx = 0\<rparr>)"
proof -
  let ?n = "length (concat (map slip_escape xs))"
  let ?r = "if c = Crc8_bytes 0 xs then NONE else CRC"
  let ?p0 = "Packet_ctor maxData buf"
  let ?p1 = "?p0\<lparr>m_state := PACKET, m_dataLen := 0\<rparr>"
  let ?p2 = "\<lparr>m_maxData = maxData, m_dataLen = length xs,
           m_data = xs @ drop (length xs) buf, m_state = PACKET, m_encodeIdx = 0\<rparr>"
  let ?p3 = "\<lparr>m_maxData = maxData, m_dataLen = Suc (length xs),
           m_data = xs @ c # drop (Suc (length xs)) buf, m_state = PACKET, m_encodeIdx = 0\<rparr>"
  let ?p4 = "\<lparr>m_maxData = maxData, m_dataLen = Suc (length xs),
           m_data = xs @ c # drop (Suc (length xs)) buf,
           m_state = (if c = Crc8_bytes 0 xs then IDLE else PACKET), m_encodeIdx = 0\<rparr>"
  have s1: "processByte ?p0 END = Inr (NOT_DONE, ?p1)"
    by (simp add: processByte_def Packet_ctor_def)
  have s2: "processBytes ?p1 (concat (map slip_escape xs)) = Inr (replicate ?n NOT_DONE, ?p2)"
    using processBytes_escaped [of ?p1 xs] assms(1,2) by (simp add: Packet_ctor_def)
  have upd: "(xs @ drop (length xs) buf)[length xs := c] = xs @ c # drop (Suc (length xs)) buf"
  proof -
    have "drop (length xs) buf = buf ! length xs # drop (Suc (length xs)) buf"
      using assms(1,2) by (simp add: Cons_nth_drop_Suc)
    then show ?thesis by (simp add: list_update_append)
  qed
  have s3: "processByte ?p2 c = Inr (NOT_DONE, ?p3)"
    using assms upd by (simp add: processByte_def store_def)
  have s4: "processByte ?p3 END = Inr (?r, ?p4)"
    using assms by (cases xs) (auto simp: processByte_def load_def Crc8_def nth_append)
  have tail: "processBytes ?p2 [c, END] = Inr ([NOT_DONE, ?r], ?p4)"
    by (simp add: s3 s4)
  have body: "processBytes ?p1 (concat (map slip_escape xs) @ [c, END]) =
      Inr (replicate ?n NOT_DONE @ [NOT_DONE, ?r], ?p4)"
    by (simp only: processBytes_append s2 tail sum.case prod.case)
  have "processBytes ?p0 (END # concat (map slip_escape xs) @ [c, END]) =
      Inr (NOT_DONE # replicate ?n NOT_DONE @ [NOT_DONE, ?r], ?p4)"
    by (simp only: processBytes.simps s1 body sum.case prod.case)
  moreover have "NOT_DONE # replicate ?n NOT_DONE @ [NOT_DONE, ?r] =
      replicate (?n + 2) NOT_DONE @ [?r]"
    by (simp add: replicate_append_same)
  ultimately show ?thesis by simp
qed

text \<open>
  Encoding and then decoding gives the packet back whenever the CRC of command and
  payload is neither END nor ESC.
\<close>

lemma round_trip_unless_crc_reserved:
  assumes "length payload + 2 \<le> maxData" "length buf = maxData" "length buf' = maxData"
    and "Crc8_bytes 0 (cmd # payload) \<noteq> END" "Crc8_bytes 0 (cmd # payload) \<noteq> ESC"
  shows "\<exists>bytes p q.
           PacketEncodeTest maxData buf cmd payload nextByte = Inr (bytes, NONE, p)
           \<and> processBytes (Packet_ctor maxData buf') bytes =
                 Inr (replicate (length bytes - 1) NOT_DONE @ [NONE], q)
           \<and> m_state q = IDLE \<and> m_dataLen q = length payload + 2
           \<and> take (m_dataLen q) (m_data q) = cmd # payload @ [Crc8_bytes 0 (cmd # payload)]
           \<and> command q = Inr cmd \<and> crc q = Inr (Crc8_bytes 0 (cmd # payload))"
proof -
  let ?xs = "cmd # payload"
  let ?c = "Crc8_bytes 0 ?xs"
  let ?bytes = "END # concat (map slip_escape ?xs) @ [?c, END]"
  let ?q = "\<lparr>m_maxData = maxData, m_dataLen = length ?xs + 1,
           m_data = ?xs @ ?c # drop (length ?xs + 1) buf',
           m_state = IDLE, m_encodeIdx = 0\<rparr>"
  from assms(1) have cap: "length payload + 1 \<le> maxData" by simp
  from PacketEncodeTest_frame [OF assms(2) cap, of cmd nextByte] obtain p
    where enc: "PacketEncodeTest maxData buf cmd payload nextByte = Inr (?bytes, NONE, p)"
    by blast
  have "length ?xs + 1 \<le> maxData" using assms(1) by simp
  from decode_frame [OF assms(3) this _ assms(4,5)]
  have dec: "processBytes (Packet_ctor maxData buf') ?bytes =
      Inr (replicate (length ?bytes - 1) NOT_DONE @ [NONE], ?q)"
    by simp
  have "take (m_dataLen ?q) (m_data ?q) = cmd # payload @ [?c]" by simp
  moreover have "command ?q = Inr cmd" by (simp add: command_def load_def)
  moreover have "crc ?q = Inr ?c" by (simp add: crc_def load_def nth_append)
  ultimately show ?thesis using enc dec
    by (intro exI [of _ ?bytes] exI [of _ p] exI [of _ ?q]) simp
qed

text \<open>
  C1. The round-trip law asks that every command and payload that fit, once encoded and
  fed to a fresh decoder, end in NONE with the same command, payload and CRC. For the
  command 0x41 with no payload the CRC is END: the frame is C0 41 C0 C0 and the decoder
  answers TOO_SMALL twice. For the command 0x01 with payload 0x43 the CRC is ESC: the frame
  is C0 01 43 DB C0, the decoder takes DB C0 for an escape pair and never completes.
\<close>

theorem round_trip_fails_on_reserved_crc:
  "PacketEncodeTest 16 (replicate 16 0) 0x41 [] 0 =
     Inr ([0xC0, 0x41, 0xC0, 0xC0], NONE,
          \<lparr>m_maxData = 16, m_dataLen = 1, m_data = 0x41 # replicate 15 0, m_state = IDLE,
           m_encodeIdx = 2\<rparr>)
   \<and> processBytes (Packet_ctor 16 (replicate 16 0)) [0xC0, 0x41, 0xC0, 0xC0] =
     Inr ([NOT_DONE, NOT_DONE, TOO_SMALL, TOO_SMALL],
          \<lparr>m_maxData = 16, m_dataLen = 1, m_data = 0x41 # replicate 15 0, m_state = PACKET,
           m_encodeIdx = 0\<rparr>)
   \<and> PacketEncodeTest 16 (replicate 16 0) 0x01 [0x43] 0 =
     Inr ([0xC0, 0x01, 0x43, 0xDB, 0xC0], NONE,
          \<lparr>m_maxData = 16, m_dataLen = 2, m_data = [0x01, 0x43] @ replicate 14 0,
           m_state = IDLE, m_encodeIdx = 3\<rparr>)
   \<and> processBytes (Packet_ctor 16 (replicate 16 0)) [0xC0, 0x01, 0x43, 0xDB, 0xC0] =
     Inr ([NOT_DONE, NOT_DONE, NOT_DONE, NOT_DONE, NOT_DONE],
          \<lparr>m_maxData = 16, m_dataLen = 3, m_data = [0x01, 0x43, 0xC0] @ replicate 13 0,
           m_state = PACKET, m_encodeIdx = 0\<rparr>)"
  by (intro conjI; code_simp)

subsection \<open>After a result\<close>

text \<open>
  Only NONE moves the decoder to IDLE. CRC, TOO_SMALL and TOO_MUCH_DATA leave the
  packet as it was, in PACKET, with the bytes of the refused frame still counted.
\<close>

lemma processByte_after_result:
  assumes "processByte p b = Inr (e, q)"
  shows "(e = NONE \<longrightarrow> m_state q = IDLE)
       \<and> (e = CRC \<or> e = TOO_SMALL \<or> e = TOO_MUCH_DATA \<longrightarrow> q = p \<and> m_state p = PACKET)"
  using assms
  by (cases "m_state p")
    (auto simp: processByte_def load_def store_def Crc8_def split: if_splits sum.splits)

text \<open>
  C3. Idempotent restart asks that the call after NONE, CRC or TOO_SMALL starts a fresh
  frame with length 0. After NONE it does (the state is IDLE). After TOO_SMALL and CRC it
  does not: in C0 01 C0 07 C0 the byte 07 is appended to the refused command 01 and the
  closing END completes a packet out of both; after the refused frame C0 01 08 C0 the
  valid frame C0 01 07 C0 is appended to it and refused as well.
\<close>

theorem no_restart_after_error:
  "processBytes (Packet_ctor 16 (replicate 16 0)) [0xC0, 0x01, 0xC0, 0x07, 0xC0] =
     Inr ([NOT_DONE, NOT_DONE, TOO_SMALL, NOT_DONE, NONE],
          \<lparr>m_maxData = 16, m_dataLen = 2, m_data = [0x01, 0x07] @ replicate 14 0,
           m_state = IDLE, m_encodeIdx = 0\<rparr>)
   \<and> processBytes (Packet_ctor 16 (replicate 16 0))
         [0xC0, 0x01, 0x08, 0xC0, 0xC0, 0x01, 0x07, 0xC0] =
     Inr ([NOT_DONE, NOT_DONE, NOT_DONE, CRC, CRC, NOT_DONE, NOT_DONE, CRC],
          \<lparr>m_maxData = 16, m_dataLen = 4, m_data = [0x01, 0x08, 0x01, 0x07] @ replicate 12 0,
           m_state = PACKET, m_encodeIdx = 0\<rparr>)"
  by (intro conjI; code_simp)

end
